theory Spec2Isabelle
  imports Main "HOL-Library.Sublist"
begin

section \<open>JavaScript string primitives used by the text splitter\<close>

text \<open>
  A JavaScript string is a sequence of UTF-16 code units and \<open>.length\<close> counts them.
  The splitter never looks inside a code unit, so its model is polymorphic in the type
  \<open>'a\<close> of code units: a text is an \<open>'a list\<close>.  Numbers that hold sizes and positions are
  \<open>int\<close>: the source does arithmetic on them that can go negative.
\<close>

text \<open>\<open>text.slice(a, b)\<close>: a negative index counts from the end, both indices are clamped
  to the text, and an end that is not after the start gives the empty string.\<close>

definition js_slice :: "'a list \<Rightarrow> int \<Rightarrow> int \<Rightarrow> 'a list" where
  "js_slice xs a b =
     (let n = int (length xs);
          s = (if a < 0 then max (n + a) 0 else min a n);
          e = (if b < 0 then max (n + b) 0 else min b n)
      in take (nat (e - s)) (drop (nat s) xs))"

text \<open>\<open>text.includes(sep)\<close>: \<open>sep\<close> occurs in \<open>text\<close> as a contiguous run.\<close>

fun js_includes :: "'a list \<Rightarrow> 'a list \<Rightarrow> bool" where
  "js_includes [] sep = (sep = [])"
| "js_includes (x # xs) sep = (prefix sep (x # xs) \<or> js_includes xs sep)"

text \<open>\<open>text.split(sep)\<close>: the text is cut at the occurrences of \<open>sep\<close>, found from left to
  right without overlap; the pieces between them are returned, empty pieces included.
  With the empty separator the result is the list of the code units.\<close>

function split_from :: "'a list \<Rightarrow> 'a list \<Rightarrow> 'a list \<Rightarrow> 'a list list" where
  "split_from sep cur [] = [cur]"
| "split_from sep cur (x # xs) =
     (if sep \<noteq> [] \<and> prefix sep (x # xs)
      then cur # split_from sep [] (drop (length sep) (x # xs))
      else split_from sep (cur @ [x]) xs)"
  by pat_completeness auto
termination
  by (relation "measure (\<lambda>(sep, cur, rest). length rest)") (auto simp: neq_Nil_conv)

definition js_split :: "'a list \<Rightarrow> 'a list \<Rightarrow> 'a list list" where
  "js_split text sep = (if sep = [] then map (\<lambda>c. [c]) text else split_from sep [] text)"

section \<open>RecursiveCharacterTextSplitter\<close>

record 'a splitter =
  chunkSize :: int
  chunkOverlap :: int
  separators :: "'a list list"

text \<open>The constructor's options; \<open>None\<close> is an option left out.\<close>

record 'a splitter_options =
  opt_chunkSize :: "int option"
  opt_chunkOverlap :: "int option"
  opt_separators :: "'a list list option"

text \<open>\<open>options.chunkSize || 4000\<close> and \<open>options.chunkOverlap || 200\<close>: the default replaces
  every falsy value, so an option given as \<open>0\<close> is replaced too.  An array is never falsy.\<close>

definition or_default :: "int option \<Rightarrow> int \<Rightarrow> int" where
  "or_default v d = (case v of None \<Rightarrow> d | Some x \<Rightarrow> if x = 0 then d else x)"

definition default_separators :: "string list" where
  "default_separators = [[CHR 0x0A, CHR 0x0A], [CHR 0x0A], '' '', '''']"

definition new_splitter :: "char splitter_options \<Rightarrow> char splitter" where
  "new_splitter options =
     \<lparr> chunkSize = or_default (opt_chunkSize options) 4000,
       chunkOverlap = or_default (opt_chunkOverlap options) 200,
       separators = (case opt_separators options of None \<Rightarrow> default_separators | Some s \<Rightarrow> s) \<rparr>"

subsection \<open>splitBySize\<close>

text \<open>The \<open>while (i < text.length)\<close> loop.  Nothing in the source makes the step
  \<open>chunkSize - chunkOverlap\<close> positive, so the loop may run forever: the model is a partial
  function whose value \<open>None\<close> means that the loop never returns.\<close>

partial_function (option) splitBySize_loop ::
  "'a splitter \<Rightarrow> 'a list \<Rightarrow> int \<Rightarrow> 'a list list \<Rightarrow> 'a list list option" where
  "splitBySize_loop sp text i chunks =
     (if i < int (length text)
      then splitBySize_loop sp text (i + (chunkSize sp - chunkOverlap sp))
             (chunks @ [js_slice text i (i + chunkSize sp)])
      else Some chunks)"

definition splitBySize :: "'a splitter \<Rightarrow> 'a list \<Rightarrow> 'a list list option" where
  "splitBySize sp text = splitBySize_loop sp text 0 []"

subsection \<open>splitTextRecursive\<close>

text \<open>The inner \<open>for (const s of splits)\<close> loop with its two variables \<open>goodSplits\<close> and
  \<open>currentSplit\<close>, followed by the final push of a non-empty \<open>currentSplit\<close>.\<close>

fun mergeSplits :: "int \<Rightarrow> 'a list \<Rightarrow> 'a list list \<Rightarrow> 'a list list \<Rightarrow> 'a list \<Rightarrow> 'a list list" where
  "mergeSplits limit sep [] goodSplits currentSplit =
     (if currentSplit \<noteq> [] then goodSplits @ [currentSplit] else goodSplits)"
| "mergeSplits limit sep (s # splits) goodSplits currentSplit =
     (if s = [] then mergeSplits limit sep splits goodSplits currentSplit
      else let potentialSplit = (if currentSplit = [] then s else currentSplit @ sep @ s)
           in if int (length potentialSplit) \<le> limit
              then mergeSplits limit sep splits goodSplits potentialSplit
              else mergeSplits limit sep splits
                     (if currentSplit \<noteq> [] then goodSplits @ [currentSplit] else goodSplits) s)"

text \<open>The outer \<open>for (const separator of this.separators)\<close> loop: its result is
  \<open>finalChunks\<close>, still empty when no separator gave more than one chunk.\<close>

fun trySeparators :: "'a splitter \<Rightarrow> 'a list \<Rightarrow> 'a list list \<Rightarrow> 'a list list option" where
  "trySeparators sp text [] = Some []"
| "trySeparators sp text (separator # rest) =
     (if separator = []
      then (case splitBySize sp text of
              None \<Rightarrow> None
            | Some chunks \<Rightarrow> if length chunks > 1 then Some chunks else trySeparators sp text rest)
      else if js_includes text separator
      then (let goodSplits = mergeSplits (chunkSize sp) separator (js_split text separator) [] []
            in if length goodSplits > 1 then Some goodSplits else trySeparators sp text rest)
      else trySeparators sp text rest)"

definition finalChunks :: "'a splitter \<Rightarrow> 'a list \<Rightarrow> 'a list list option" where
  "finalChunks sp text =
     (case trySeparators sp text (separators sp) of
        None \<Rightarrow> None
      | Some chunks \<Rightarrow> if length chunks = 0 then splitBySize sp text else Some chunks)"

subsection \<open>Every chunk that is split again is shorter than the text\<close>

text \<open>\<open>js_join sep\<close> is \<open>Array.prototype.join\<close>; the source does not call it, it states
  what \<open>split\<close> returns: joining the pieces with the separator gives the text back.\<close>

fun js_join :: "'a list \<Rightarrow> 'a list list \<Rightarrow> 'a list" where
  "js_join sep [] = []"
| "js_join sep [x] = x"
| "js_join sep (x # y # ys) = x @ sep @ js_join sep (y # ys)"

lemma split_from_not_Nil: "split_from sep cur rest \<noteq> []"
  by (induction sep cur rest rule: split_from.induct) auto

lemma js_join_Cons: "ys \<noteq> [] \<Longrightarrow> js_join sep (x # ys) = x @ sep @ js_join sep ys"
  by (cases ys) auto

lemma split_from_join: "js_join sep (split_from sep cur rest) = cur @ rest"
proof (induction sep cur rest rule: split_from.induct)
  case (1 sep cur)
  then show ?case by simp
next
  case (2 sep cur x xs)
  show ?case
  proof (cases "sep \<noteq> [] \<and> prefix sep (x # xs)")
    case True
    then have "sep @ drop (length sep) (x # xs) = x # xs"
      by (metis append_eq_conv_conj prefix_def)
    with True 2 show ?thesis
      by (simp add: js_join_Cons split_from_not_Nil del: drop.simps)
  next
    case False
    with 2 show ?thesis by auto
  qed
qed

text \<open>The weight of a list of chunks counts every chunk with one separator.  Merging
  never increases it, which bounds every chunk of a split into two or more.\<close>

definition weight :: "'a list \<Rightarrow> 'a list list \<Rightarrow> nat" where
  "weight sep chunks = sum_list (map (\<lambda>c. length c + length sep) chunks)"

lemma weight_join: "segs \<noteq> [] \<Longrightarrow> weight sep segs = length (js_join sep segs) + length sep"
  by (induction sep segs rule: js_join.induct) (auto simp: weight_def)

lemma mergeSplits_weight:
  "weight sep (mergeSplits limit sep segs good cur)
     \<le> weight sep good + (if cur = [] then 0 else length cur + length sep) + weight sep segs"
  by (induction limit sep segs good cur rule: mergeSplits.induct)
     (auto simp: weight_def Let_def split: if_splits)

lemma mergeSplits_nonempty:
  "[] \<notin> set good \<Longrightarrow> [] \<notin> set (mergeSplits limit sep segs good cur)"
  by (induction limit sep segs good cur rule: mergeSplits.induct)
     (auto simp: Let_def split: if_splits)

lemma elem_le_sum_list: "d \<in> set xs \<Longrightarrow> (f d :: nat) \<le> sum_list (map f xs)"
  by (induction xs) auto

lemma weight_two:
  assumes "length xs > 1" "[] \<notin> set xs" "c \<in> set xs"
  shows "length c + 1 + 2 * length sep \<le> weight sep xs"
proof -
  from assms(3) obtain ys zs where xs: "xs = ys @ c # zs" by (meson split_list)
  with assms(1) have "ys @ zs \<noteq> []" by auto
  then obtain d where d: "d \<in> set (ys @ zs)" by (meson last_in_set)
  with xs assms(2) have "d \<noteq> []" by auto
  then have "1 \<le> length d" by (cases d) auto
  moreover have "length d + length sep \<le> weight sep (ys @ zs)"
    using d unfolding weight_def by (rule elem_le_sum_list)
  moreover have "weight sep xs = (length c + length sep) + weight sep (ys @ zs)"
    by (simp add: xs weight_def)
  ultimately show ?thesis by linarith
qed


text \<open>The loop of \<open>splitBySize\<close> returns only when its step is positive or there is
  nothing to do.\<close>

lemma loop_Some_step:
  assumes "splitBySize_loop sp tx i chunks = Some r"
  shows "\<not> (i < int (length tx) \<and> chunkSize sp - chunkOverlap sp \<le> 0)"
proof (rule splitBySize_loop.raw_induct
    [where P = "\<lambda>sp tx i chunks r. \<not> (i < int (length tx) \<and> chunkSize sp - chunkOverlap sp \<le> 0)",
      OF _ assms])
  fix loop :: "'a splitter \<Rightarrow> 'a list \<Rightarrow> int \<Rightarrow> 'a list list \<Rightarrow> 'a list list option"
    and sp tx i chunks r
  assume IH: "\<And>sp tx i chunks r. loop sp tx i chunks = Some r \<Longrightarrow>
      \<not> (i < int (length tx) \<and> chunkSize sp - chunkOverlap sp \<le> 0)"
    and eq: "(if i < int (length tx)
       then loop sp tx (i + (chunkSize sp - chunkOverlap sp))
              (chunks @ [js_slice tx i (i + chunkSize sp)])
       else Some chunks) = Some r"
  show "\<not> (i < int (length tx) \<and> chunkSize sp - chunkOverlap sp \<le> 0)"
  proof
    assume a: "i < int (length tx) \<and> chunkSize sp - chunkOverlap sp \<le> 0"
    with eq have "loop sp tx (i + (chunkSize sp - chunkOverlap sp))
        (chunks @ [js_slice tx i (i + chunkSize sp)]) = Some r" by simp
    from IH[OF this] a show False by simp
  qed
qed

lemma loop_None:
  "i < int (length tx) \<Longrightarrow> chunkSize sp \<le> chunkOverlap sp \<Longrightarrow>
   splitBySize_loop sp tx i chunks = None"
  using loop_Some_step [of sp tx i chunks] by (cases "splitBySize_loop sp tx i chunks") auto

lemma loop_chunks:
  assumes "splitBySize_loop sp tx i chunks = Some r"
  shows "0 \<le> i \<and> 0 < chunkSize sp - chunkOverlap sp \<longrightarrow>
     (\<forall>c \<in> set r. c \<in> set chunks \<or> (\<exists>j\<ge>0. c = js_slice tx j (j + chunkSize sp)))"
proof (rule splitBySize_loop.raw_induct
    [where P = "\<lambda>sp tx i chunks r. 0 \<le> i \<and> 0 < chunkSize sp - chunkOverlap sp \<longrightarrow>
     (\<forall>c \<in> set r. c \<in> set chunks \<or> (\<exists>j\<ge>0. c = js_slice tx j (j + chunkSize sp)))",
      OF _ assms])
  fix loop :: "'a splitter \<Rightarrow> 'a list \<Rightarrow> int \<Rightarrow> 'a list list \<Rightarrow> 'a list list option"
    and sp tx i chunks r
  assume IH: "\<And>sp tx i chunks r. loop sp tx i chunks = Some r \<Longrightarrow>
      0 \<le> i \<and> 0 < chunkSize sp - chunkOverlap sp \<longrightarrow>
     (\<forall>c \<in> set r. c \<in> set chunks \<or> (\<exists>j\<ge>0. c = js_slice tx j (j + chunkSize sp)))"
    and eq: "(if i < int (length tx)
       then loop sp tx (i + (chunkSize sp - chunkOverlap sp))
              (chunks @ [js_slice tx i (i + chunkSize sp)])
       else Some chunks) = Some r"
  show "0 \<le> i \<and> 0 < chunkSize sp - chunkOverlap sp \<longrightarrow>
     (\<forall>c \<in> set r. c \<in> set chunks \<or> (\<exists>j\<ge>0. c = js_slice tx j (j + chunkSize sp)))"
  proof (cases "i < int (length tx)")
    case True
    with eq have "loop sp tx (i + (chunkSize sp - chunkOverlap sp))
        (chunks @ [js_slice tx i (i + chunkSize sp)]) = Some r" by simp
    from IH[OF this] show ?thesis by auto
  next
    case False
    with eq show ?thesis by auto
  qed
qed
lemma loop_total:
  assumes "0 < chunkSize sp - chunkOverlap sp"
  shows "\<exists>r. splitBySize_loop sp tx i chunks = Some r"
proof (induction "nat (int (length tx) - i)" arbitrary: i chunks rule: less_induct)
  case less
  show ?case
  proof (cases "i < int (length tx)")
    case True
    with assms have "nat (int (length tx) - (i + (chunkSize sp - chunkOverlap sp)))
        < nat (int (length tx) - i)" by linarith
    from less[OF this] True show ?thesis
      by (subst splitBySize_loop.simps) simp
  next
    case False
    then show ?thesis by (subst splitBySize_loop.simps) simp
  qed
qed

lemma slice_len_le:
  "0 \<le> j \<Longrightarrow> 0 \<le> C \<Longrightarrow> int (length (js_slice tx j (j + C))) \<le> C"
  by (auto simp: js_slice_def Let_def)

lemma slice_len_lt:
  "0 \<le> j \<Longrightarrow> C < 0 \<Longrightarrow> tx \<noteq> [] \<Longrightarrow> length (js_slice tx j (j + C)) < length tx"
  by (auto simp: js_slice_def Let_def min_def max_def)

lemma slice_len_text: "length (js_slice tx a b) \<le> length tx"
  by (auto simp: js_slice_def Let_def)

text \<open>Where the chunks of \<open>finalChunks\<close> come from: they are windows that \<open>splitBySize\<close>
  cut at positions that are not negative, or the merge of the pieces between the
  occurrences of a non-empty separator, when it gave more than one chunk.\<close>

lemma splitBySize_chunk:
  assumes "splitBySize sp tx = Some chunks" "c \<in> set chunks"
  obtains j where "0 \<le> j" "c = js_slice tx j (j + chunkSize sp)" "tx \<noteq> []"
proof -
  have ne: "tx \<noteq> []"
  proof
    assume "tx = []"
    with assms(1) have "chunks = []"
      by (simp add: splitBySize_def splitBySize_loop.simps)
    with assms(2) show False by simp
  qed
  then have "0 < int (length tx)" by simp
  with assms(1) loop_Some_step [of sp tx 0 "[]" chunks]
  have "0 < chunkSize sp - chunkOverlap sp" by (simp add: splitBySize_def)
  with assms loop_chunks [of sp tx 0 "[]" chunks]
  obtain j where "0 \<le> j" "c = js_slice tx j (j + chunkSize sp)"
    by (auto simp: splitBySize_def)
  with ne that show ?thesis by blast
qed

lemma trySeparators_chunk:
  "trySeparators sp tx seps = Some chunks \<Longrightarrow> c \<in> set chunks \<Longrightarrow>
   (\<exists>ws. splitBySize sp tx = Some ws \<and> c \<in> set ws) \<or>
   (\<exists>sep. sep \<noteq> [] \<and> length (mergeSplits (chunkSize sp) sep (js_split tx sep) [] []) > 1 \<and>
      c \<in> set (mergeSplits (chunkSize sp) sep (js_split tx sep) [] []))"
proof (induction seps)
  case Nil
  then show ?case by simp
next
  case (Cons separator rest)
  show ?case
  proof (cases "separator = []")
    case True
    with Cons show ?thesis by (auto split: option.splits if_splits)
  next
    case False
    with Cons show ?thesis by (auto simp: Let_def split: if_splits)
  qed
qed

lemma finalChunks_chunk:
  assumes "finalChunks sp tx = Some chunks" "c \<in> set chunks"
  shows "(\<exists>ws. splitBySize sp tx = Some ws \<and> c \<in> set ws) \<or>
   (\<exists>sep. sep \<noteq> [] \<and> length (mergeSplits (chunkSize sp) sep (js_split tx sep) [] []) > 1 \<and>
      c \<in> set (mergeSplits (chunkSize sp) sep (js_split tx sep) [] []))"
proof (cases "trySeparators sp tx (separators sp)")
  case None
  with assms(1) show ?thesis by (simp add: finalChunks_def)
next
  case (Some fc)
  show ?thesis
  proof (cases "fc = []")
    case True
    with Some assms show ?thesis by (auto simp: finalChunks_def)
  next
    case False
    with Some assms have "trySeparators sp tx (separators sp) = Some chunks"
      by (simp add: finalChunks_def)
    then show ?thesis using assms(2) by (rule trySeparators_chunk)
  qed
qed

lemma splitBySize_shorter:
  assumes "splitBySize sp tx = Some chunks" "c \<in> set chunks" "chunkSize sp < int (length c)"
  shows "length c < length tx"
proof -
  from assms(1,2) obtain j where j: "0 \<le> j" "c = js_slice tx j (j + chunkSize sp)" "tx \<noteq> []"
    by (rule splitBySize_chunk)
  show ?thesis
  proof (cases "0 \<le> chunkSize sp")
    case True
    with j slice_len_le [of j "chunkSize sp" tx] assms(3) show ?thesis by simp
  next
    case False
    with j slice_len_lt [of j "chunkSize sp" tx] show ?thesis by simp
  qed
qed

lemma mergeSplits_shorter:
  assumes "sep \<noteq> []" "length (mergeSplits limit sep (js_split tx sep) [] []) > 1"
    "c \<in> set (mergeSplits limit sep (js_split tx sep) [] [])"
  shows "length c < length tx"
proof -
  let ?segs = "split_from sep [] tx"
  let ?good = "mergeSplits limit sep ?segs [] []"
  from assms have "length ?good > 1" "c \<in> set ?good" by (simp_all add: js_split_def)
  moreover have "[] \<notin> set ?good" by (rule mergeSplits_nonempty) simp
  ultimately have "length c + 1 + 2 * length sep \<le> weight sep ?good"
    by (intro weight_two) auto
  also have "\<dots> \<le> weight sep ?segs"
    using mergeSplits_weight [of sep limit ?segs "[]" "[]"] by (simp add: weight_def)
  also have "\<dots> = length tx + length sep"
    by (simp add: weight_join split_from_not_Nil split_from_join)
  finally show ?thesis by simp
qed

lemma finalChunks_shorter:
  "finalChunks sp tx = Some chunks \<Longrightarrow> c \<in> set chunks \<Longrightarrow>
   chunkSize sp < int (length c) \<Longrightarrow> length c < length tx"
  using finalChunks_chunk [of sp tx chunks c]
  by (auto dest: splitBySize_shorter mergeSplits_shorter)

text \<open>\<open>splitTextRecursive\<close>: the chunks longer than \<open>chunkSize\<close> are split again.  The
  result is \<open>None\<close> when a loop of \<open>splitBySize\<close> on the way never returns.\<close>

function splitTextRecursive :: "'a splitter \<Rightarrow> 'a list \<Rightarrow> 'a list list option" where
  "splitTextRecursive sp text =
     (case finalChunks sp text of
        None \<Rightarrow> None
      | Some chunks \<Rightarrow>
          map_option concat
            (those (map (\<lambda>chunk. if int (length chunk) > chunkSize sp
                                 then splitTextRecursive sp chunk
                                 else Some [chunk]) chunks)))"
  by pat_completeness auto
termination
  by (relation "measure (\<lambda>(sp, text). length text)") (auto dest: finalChunks_shorter)

declare splitTextRecursive.simps [simp del]

declare splitBySize_loop.simps [code]

text \<open>\<open>splitText\<close>: the empty text gives no chunk, a text within \<open>chunkSize\<close> is its own
  only chunk.\<close>

definition splitText :: "'a splitter \<Rightarrow> 'a list \<Rightarrow> 'a list list option" where
  "splitText sp text =
     (if text = [] then Some []
      else if int (length text) \<le> chunkSize sp then Some [text]
      else splitTextRecursive sp text)"

subsection \<open>No chunk is longer than the text\<close>


lemma those_map_total:
  "(\<And>x. x \<in> set xs \<Longrightarrow> \<exists>y. f x = Some y) \<Longrightarrow> \<exists>ys. those (map f xs) = Some ys"
proof (induction xs)
  case Nil
  then show ?case by simp
next
  case (Cons x xs)
  then obtain y ys where "f x = Some y" "those (map f xs) = Some ys"
    by (metis list.set_intros(1,2))
  then show ?case by simp
qed

lemma those_map_elem:
  "those (map f xs) = Some ys \<Longrightarrow> y \<in> set ys \<Longrightarrow> \<exists>x \<in> set xs. f x = Some y"
  by (induction xs arbitrary: ys) (auto split: option.splits)

lemma mergeSplits_len:
  assumes "sep \<noteq> []" "c \<in> set (mergeSplits limit sep (js_split tx sep) [] [])"
  shows "length c \<le> length tx"
proof -
  let ?segs = "split_from sep [] tx"
  let ?good = "mergeSplits limit sep ?segs [] []"
  from assms have "c \<in> set ?good" by (simp add: js_split_def)
  then have "length c + length sep \<le> weight sep ?good"
    unfolding weight_def by (rule elem_le_sum_list)
  also have "\<dots> \<le> weight sep ?segs"
    using mergeSplits_weight [of sep limit ?segs "[]" "[]"] by (simp add: weight_def)
  also have "\<dots> = length tx + length sep"
    by (simp add: weight_join split_from_not_Nil split_from_join)
  finally show ?thesis by simp
qed

lemma splitBySize_len:
  assumes "splitBySize sp tx = Some chunks" "c \<in> set chunks"
  shows "length c \<le> length tx"
  using assms by (rule splitBySize_chunk) (simp add: slice_len_text)

lemma finalChunks_len:
  "finalChunks sp tx = Some chunks \<Longrightarrow> c \<in> set chunks \<Longrightarrow> length c \<le> length tx"
  using finalChunks_chunk [of sp tx chunks c]
  by (auto dest: splitBySize_len mergeSplits_len)

text \<open>A property of the chunks of \<open>finalChunks\<close> that is transitive holds of the chunks of
  \<open>splitTextRecursive\<close>: they are chunks of chunks.\<close>

lemma splitTextRecursive_chunks:
  assumes base: "\<And>tx fc c. finalChunks sp tx = Some fc \<Longrightarrow> c \<in> set fc \<Longrightarrow> R c tx"
    and trans: "\<And>a b c. R a b \<Longrightarrow> R b c \<Longrightarrow> R a c"
  shows "splitTextRecursive sp tx = Some chunks \<Longrightarrow> c \<in> set chunks \<Longrightarrow> R c tx"
  using assms
proof (induction sp tx arbitrary: chunks c rule: splitTextRecursive.induct)
  case (1 sp' tx)
  note base' = "1.prems"(3) and trans' = "1.prems"(4)
  from "1.prems"(1) obtain fc rs where fc: "finalChunks sp' tx = Some fc"
    and rs: "those (map (\<lambda>chunk. if int (length chunk) > chunkSize sp'
                                 then splitTextRecursive sp' chunk
                                 else Some [chunk]) fc) = Some rs"
    and chunks: "chunks = concat rs"
    by (subst (asm) splitTextRecursive.simps) (auto split: option.splits)
  from "1.prems"(2) chunks obtain r where r: "r \<in> set rs" "c \<in> set r" by auto
  from those_map_elem [OF rs r(1)] obtain chunk where chunk: "chunk \<in> set fc"
    "(if int (length chunk) > chunkSize sp' then splitTextRecursive sp' chunk else Some [chunk]) = Some r"
    by auto
  have top: "R chunk tx" using fc chunk(1) by (rule base')
  show ?case
  proof (cases "int (length chunk) > chunkSize sp'")
    case True
    with chunk(2) have "splitTextRecursive sp' chunk = Some r" by simp
    from "1.IH" [OF fc chunk(1) True this r(2) base' trans'] top show ?thesis
      by (rule trans')
  next
    case False
    with chunk(2) r(2) top show ?thesis by auto
  qed
qed

lemma splitTextRecursive_len:
  "splitTextRecursive sp tx = Some chunks \<Longrightarrow> c \<in> set chunks \<Longrightarrow> length c \<le> length tx"
  by (rule splitTextRecursive_chunks [where R = "\<lambda>a b. length a \<le> length b"])
     (auto dest: finalChunks_len)

lemma splitText_len:
  "splitText sp tx = Some chunks \<Longrightarrow> c \<in> set chunks \<Longrightarrow> length c \<le> length tx"
  by (auto simp: splitText_def split: if_splits dest: splitTextRecursive_len)

section \<open>trimPrompt\<close>

text \<open>\<open>TEXT_CONFIG.MIN_CHUNK_SIZE\<close> of \<open>config/env.ts\<close>.\<close>

definition MIN_CHUNK_SIZE :: int where
  "MIN_CHUNK_SIZE = 140"

text \<open>
  \<open>OpenAIProvider.trimPrompt\<close> and \<open>OllamaProvider.trimPrompt\<close> have the same body, which
  is this function.  The tokenizer is a parameter: \<open>encode prompt\<close> stands for
  \<open>this.encoder.encode(prompt).length\<close>.  The splitter is built by the constructor with
  the options \<open>{chunkSize, chunkOverlap: 0}\<close>, and \<open>splitText(prompt)[0] ?? ""\<close> is the first
  chunk, or the empty string when there is none.  The result is \<open>None\<close> when the splitter
  never returns.  The recursion is on a shorter prompt each time, as the termination proof
  shows from the bound on the chunks.
\<close>

function trimPrompt :: "(string \<Rightarrow> nat) \<Rightarrow> string \<Rightarrow> int \<Rightarrow> string option" where
  "trimPrompt encode prompt contextSize =
     (if prompt = [] then Some []
      else let tokens = int (encode prompt) in
        if tokens \<le> contextSize then Some prompt
        else let overflowTokens = tokens - contextSize;
                 chunkSize = int (length prompt) - overflowTokens * 3
             in if chunkSize < MIN_CHUNK_SIZE then Some (js_slice prompt 0 MIN_CHUNK_SIZE)
                else (case splitText (new_splitter \<lparr> opt_chunkSize = Some chunkSize,
                                                      opt_chunkOverlap = Some 0,
                                                      opt_separators = None \<rparr>) prompt of
                        None \<Rightarrow> None
                      | Some chunks \<Rightarrow>
                          let trimmedPrompt = (case chunks of [] \<Rightarrow> [] | c # _ \<Rightarrow> c)
                          in if length trimmedPrompt = length prompt
                             then trimPrompt encode (js_slice prompt 0 chunkSize) contextSize
                             else trimPrompt encode trimmedPrompt contextSize))"
  by pat_completeness auto
termination
proof (relation "measure (\<lambda>(encode, prompt, contextSize). length prompt)", goal_cases)
  case 1
  show ?case by simp
next
  case (2 encode prompt contextSize tokens overflowTokens chunkSize chunks trimmedPrompt)
  then show ?case
    by (auto simp: js_slice_def Let_def MIN_CHUNK_SIZE_def)
next
  case (3 encode prompt contextSize tokens overflowTokens chunkSize chunks trimmedPrompt)
  have "length trimmedPrompt \<le> length prompt"
  proof (cases chunks)
    case Nil
    with 3 show ?thesis by simp
  next
    case (Cons c cs)
    with 3 have "c \<in> set chunks" "trimmedPrompt = c" by auto
    with 3(7) splitText_len show ?thesis by blast
  qed
  with 3 show ?case by simp
qed

declare trimPrompt.simps [simp del]

text \<open>No non-empty separator of the list occurs in the text: the separator loop then finds
  nothing to split on and the fixed-width fallback is all that is left.\<close>

definition no_separator_in :: "'a list list \<Rightarrow> 'a list \<Rightarrow> bool" where
  "no_separator_in seps text = list_all (\<lambda>sep. sep = [] \<or> \<not> js_includes text sep) seps"



text \<open>A tokenizer for the examples: one token for every code unit.\<close>

definition one_token_per_unit :: "string \<Rightarrow> nat" where
  "one_token_per_unit s = length s"

section \<open>Decision trees\<close>

datatype NodeType = decision | chance | outcome

text \<open>\<open>GeneratedNode\<close>: what the generation call returns for a node.  Every field may be
  absent (\<open>None\<close>); \<open>parentId\<close> may also be \<open>null\<close>, which is \<open>Some None\<close>.  A \<open>children\<close>
  field that is absent or not an array is the empty list: \<open>normalizeNode\<close> treats both as
  no children.  The numbers \<open>risk\<close>, \<open>opportunity\<close> and \<open>probability\<close> are only copied.\<close>

datatype GeneratedNode = GeneratedNode
  (g_id: "string option")
  (g_description: "string option")
  (g_type: "NodeType option")
  (g_parentId: "string option option")
  (g_risk: "int option")
  (g_opportunity: "int option")
  (g_probability: "int option")
  (g_children: "GeneratedNode list")

datatype DecisionNode = DecisionNode
  (node_id: string)
  (description: string)
  (node_type: NodeType)
  (parentId: "string option")
  (risk: "int option")
  (opportunity: "int option")
  (probability: "int option")
  (children: "DecisionNode list")

text \<open>The assignment \<open>node.children = ...\<close>.\<close>

fun set_children :: "DecisionNode \<Rightarrow> DecisionNode list \<Rightarrow> DecisionNode" where
  "set_children (DecisionNode i d t p r opp pr _) cs = DecisionNode i d t p r opp pr cs"

record DecisionProgress =
  currentDepth :: int
  totalDepth :: int
  currentBranch :: string
  totalBranches :: int
  completedBranches :: int

text \<open>A failed generation call: the error that \<open>generateObject\<close> throws.\<close>

datatype error = GenerationError string

text \<open>
  What the service changes while it runs: the shared cell \<open>completedBranches.value\<close>, the
  number of identifiers drawn from \<open>uuidv4\<close>, the number of generation calls issued, the
  warnings logged (the description of the node and the error), and the snapshots handed
  to \<open>onProgress\<close>.
\<close>

record world =
  completedBranches_value :: int
  uuids_drawn :: nat
  generation_calls :: nat
  warnings :: "(string \<times> error) list"
  progress_events :: "DecisionProgress list"

text \<open>
  What the service uses and does not define: \<open>uuidv4\<close> (the \<open>k\<close>-th identifier drawn), the
  structured generation call of \<open>expandDecisionNode\<close> (the \<open>k\<close>-th call issued, with the
  trimmed prompt, and the node's id and the breadth that its schema mentions), the one of
  \<open>generateInitialDecisionTree\<close>, the tokenizer, \<open>ENV.MODEL.CONTEXT_SIZE\<close>, and the text of
  the prompt of \<open>expandDecisionNode\<close> as a function of the three values put into it.
  A generation call returns the validated object (\<open>Inr\<close>) or throws (\<open>Inl\<close>).
\<close>

record env =
  uuidv4 :: "nat \<Rightarrow> string"
  generateConsequences :: "nat \<Rightarrow> string \<Rightarrow> string \<Rightarrow> int \<Rightarrow> error + GeneratedNode list"
  generateDecisionTree :: "nat \<Rightarrow> string \<Rightarrow> int \<Rightarrow> string \<Rightarrow> error + GeneratedNode"
  tokenCount :: "string \<Rightarrow> nat"
  CONTEXT_SIZE :: int
  expandPrompt :: "string \<Rightarrow> string \<Rightarrow> int \<Rightarrow> string"

text \<open>The literal \<open>"\<dots>"\<close> of \<open>normalizeNode\<close> (five CJK characters) and the arrow between the
  descriptions of a path, as UTF-8 bytes.\<close>

definition unnamed_option :: string where
  "unnamed_option = [CHR 0xE6, CHR 0x9C, CHR 0xAA, CHR 0xE5, CHR 0x91, CHR 0xBD, CHR 0xE5, CHR 0x90,
     CHR 0x8D, CHR 0xE9, CHR 0x80, CHR 0x89, CHR 0xE9, CHR 0xA1, CHR 0xB9]"

definition arrow :: string where
  "arrow = [CHR 0x20, CHR 0xE2, CHR 0x86, CHR 0x92, CHR 0x20]"

subsection \<open>normalizeNode\<close>

text \<open>
  \<open>normalizeNode gen defaultParentId\<close>, with the count of identifiers drawn passed along.
  \<open>node.id || uuidv4()\<close> draws an identifier when the id is absent or empty.  The children
  are normalized with \<open>node.id\<close> as their default parent: the id as generated, not the one
  just chosen; an absent id makes the parameter take its default \<open>null\<close>.
  \<open>normalizeNodes\<close> is the \<open>map\<close> over a list of generated nodes.
\<close>

fun normalizeNode :: "(nat \<Rightarrow> string) \<Rightarrow> GeneratedNode \<Rightarrow> string option \<Rightarrow> nat \<Rightarrow> DecisionNode \<times> nat"
  and normalizeNodes :: "(nat \<Rightarrow> string) \<Rightarrow> GeneratedNode list \<Rightarrow> string option \<Rightarrow> nat \<Rightarrow> DecisionNode list \<times> nat"
  where
  "normalizeNode uuid (GeneratedNode gid gdesc gtype gparent grisk gopp gprob gchildren) defaultParentId n =
     (let (i, n1) = (case gid of
                       None \<Rightarrow> (uuid n, Suc n)
                     | Some s \<Rightarrow> if s = [] then (uuid n, Suc n) else (s, n));
          (cs, n2) = normalizeNodes uuid gchildren gid n1
      in (DecisionNode i
            (case gdesc of None \<Rightarrow> unnamed_option | Some d \<Rightarrow> if d = [] then unnamed_option else d)
            (case gtype of None \<Rightarrow> decision | Some t \<Rightarrow> t)
            (case gparent of None \<Rightarrow> defaultParentId | Some p \<Rightarrow> p)
            grisk gopp gprob cs, n2))"
| "normalizeNodes uuid [] defaultParentId n = ([], n)"
| "normalizeNodes uuid (g # gs) defaultParentId n =
     (let (c, n1) = normalizeNode uuid g defaultParentId n;
          (cs, n2) = normalizeNodes uuid gs defaultParentId n1
      in (c # cs, n2))"

subsection \<open>expandDecisionNode\<close>

text \<open>\<open>fullPath\<close> (and \<open>currentPath\<close> of \<open>analyzeDecisionTree\<close>, which is the same
  expression): the path, the arrow and the description, or the description alone when the
  path is empty.\<close>

definition full_path :: "string \<Rightarrow> DecisionNode \<Rightarrow> string" where
  "full_path path node = (if path \<noteq> [] then path @ arrow @ description node else description node)"

text \<open>The prompt is trimmed before the generation call is issued.  A call that throws is
  caught: the warning is logged and the node returned as it was.  The parameter \<open>depth\<close>
  of the source is not used by it and is left out.\<close>

definition expandDecisionNode ::
  "env \<Rightarrow> DecisionNode \<Rightarrow> int \<Rightarrow> string \<Rightarrow> string \<Rightarrow> world \<Rightarrow> (DecisionNode \<times> world) option" where
  "expandDecisionNode e node breadth problem path w =
     (if length (children node) > 0 then Some (node, w)
      else case trimPrompt (tokenCount e) (expandPrompt e problem (full_path path node) breadth)
                  (CONTEXT_SIZE e) of
             None \<Rightarrow> None
           | Some prompt \<Rightarrow>
               (case generateConsequences e (generation_calls w) prompt (node_id node) breadth of
                  Inl err \<Rightarrow>
                    Some (node, w\<lparr> generation_calls := generation_calls w + 1,
                                   warnings := warnings w @ [(description node, err)] \<rparr>)
                | Inr consequences \<Rightarrow>
                    (let (cs, n) = normalizeNodes (uuidv4 e) consequences (Some (node_id node))
                                     (uuids_drawn w)
                     in Some (set_children node cs,
                              w\<lparr> generation_calls := generation_calls w + 1, uuids_drawn := n \<rparr>))))"

subsection \<open>analyzeDecisionTree\<close>

text \<open>The calls of a list of tasks one after the other, each on the world its predecessor
  left; the whole does not return when one of them does not.\<close>

fun map_world :: "('a \<Rightarrow> 'w \<Rightarrow> ('b \<times> 'w) option) \<Rightarrow> 'a list \<Rightarrow> 'w \<Rightarrow> ('b list \<times> 'w) option" where
  "map_world f [] w = Some ([], w)"
| "map_world f (x # xs) w =
     (case f x w of
        None \<Rightarrow> None
      | Some (y, w1) \<Rightarrow>
          (case map_world f xs w1 of None \<Rightarrow> None | Some (ys, w2) \<Rightarrow> Some (y # ys, w2)))"

lemma map_world_cong [fundef_cong]:
  "xs = ys \<Longrightarrow> w = w' \<Longrightarrow> (\<And>x v. x \<in> set ys \<Longrightarrow> f x v = g x v) \<Longrightarrow>
   map_world f xs w = map_world g ys w'"
proof (induction ys arbitrary: xs w w')
  case Nil
  then show ?case by simp
next
  case (Cons y ys)
  then show ?case by (auto split: option.splits)
qed

text \<open>\<open>completedBranches.value += 1\<close> followed by the call of \<open>onProgress\<close>, when one was
  given, with a snapshot of the new count.\<close>

definition complete_branch :: "bool \<Rightarrow> int \<Rightarrow> int \<Rightarrow> string \<Rightarrow> int \<Rightarrow> world \<Rightarrow> world" where
  "complete_branch onProgress depth maxDepth currentPath totalBranches' w =
     (let v = completedBranches_value w + 1
      in w\<lparr> completedBranches_value := v,
            progress_events :=
              (if onProgress
               then progress_events w @
                      [\<lparr> currentDepth = depth, totalDepth = maxDepth, currentBranch = currentPath,
                         totalBranches = totalBranches', completedBranches = v \<rparr>]
               else progress_events w) \<rparr>)"

text \<open>
  The source starts the analyses of the children together and awaits them with
  \<open>Promise.all\<close>; they can interleave only where one awaits a generation call, and an
  increment of the counter is never interrupted.  The model runs them one after the other
  in the order of the list.  The generator answers the \<open>k\<close>-th call it receives, so that
  it may answer every call differently; which call is the \<open>k\<close>-th, which identifier a node
  draws and in which order the snapshots arrive depend on the schedule, and nothing
  below is stated about them.  The result is \<open>None\<close> when \<open>trimPrompt\<close> does not return for
  some node.
\<close>

function analyzeDecisionTree ::
  "env \<Rightarrow> DecisionNode \<Rightarrow> int \<Rightarrow> int \<Rightarrow> string \<Rightarrow> string \<Rightarrow> bool \<Rightarrow> int \<Rightarrow> int \<Rightarrow> world
     \<Rightarrow> (DecisionNode \<times> world) option" where
  "analyzeDecisionTree e node depth maxDepth problem path onProgress totalBranches' breadth w =
     (let currentPath = full_path path node
      in if depth \<ge> maxDepth
         then Some (node, complete_branch onProgress depth maxDepth currentPath totalBranches' w)
         else (case expandDecisionNode e node breadth problem path w of
                 None \<Rightarrow> None
               | Some (expandedNode, w1) \<Rightarrow>
                   (case map_world
                           (\<lambda>child. analyzeDecisionTree e child (depth + 1) maxDepth problem
                                       currentPath onProgress totalBranches' breadth)
                           (children expandedNode) w1 of
                      None \<Rightarrow> None
                    | Some (analyzed, w2) \<Rightarrow>
                        Some (set_children expandedNode analyzed,
                              if depth = 0
                              then complete_branch onProgress depth maxDepth currentPath totalBranches' w2
                              else w2))))"
  by pat_completeness auto
termination
  by (relation "measure (\<lambda>(e, node, depth, maxDepth, rest). nat (maxDepth - depth))") auto

declare analyzeDecisionTree.simps [simp del]

subsection \<open>calculateTotalBranches\<close>

text \<open>Numbers are integers here, and \<open>breadth ** (maxDepth - depth - 1)\<close> is a power with
  a natural exponent: the branch is reached only when \<open>depth < maxDepth\<close>.\<close>

fun calculateTotalBranches :: "DecisionNode \<Rightarrow> int \<Rightarrow> int \<Rightarrow> int \<Rightarrow> int" where
  "calculateTotalBranches (DecisionNode i d t p r opp pr cs) depth maxDepth breadth =
     (if depth \<ge> maxDepth then 1
      else if length cs > 0
      then 1 + foldl (\<lambda>acc child. acc + calculateTotalBranches child (depth + 1) maxDepth breadth) 0 cs
      else 1 + breadth * breadth ^ nat (maxDepth - depth - 1))"

subsection \<open>generateInitialDecisionTree and analyzeDecision\<close>

text \<open>\<open>generateInitialDecisionTree\<close> draws \<open>rootNodeId\<close>, issues one generation call and
  normalizes the tree it returns, with \<open>null\<close> as default parent of the root.  A failure
  of the call is not caught here.\<close>

definition generateInitialDecisionTree ::
  "env \<Rightarrow> string \<Rightarrow> int \<Rightarrow> world \<Rightarrow> error + DecisionNode \<times> world" where
  "generateInitialDecisionTree e problem breadth w =
     (let rootNodeId = uuidv4 e (uuids_drawn w)
      in case generateDecisionTree e (generation_calls w) problem breadth rootNodeId of
           Inl err \<Rightarrow> Inl err
         | Inr decisionTree \<Rightarrow>
             (let (normalizedTree, n) =
                    normalizeNode (uuidv4 e) decisionTree None (Suc (uuids_drawn w))
              in Inr (normalizedTree,
                      w\<lparr> generation_calls := generation_calls w + 1, uuids_drawn := n \<rparr>)))"

text \<open>\<open>analyzeTree\<close> is the part of \<open>analyzeDecision\<close> that follows the construction of the
  initial tree and ends when \<open>decisionTree\<close> is bound: the estimate of the number of
  branches, the fresh counter, and the walk from depth 0 with the empty path.
  \<open>analyzeDecision\<close> is the construction followed by it; the extraction of insights from
  the finished tree, which comes after, is not part of the model.  An error of the first
  generation call leaves \<open>analyzeDecision\<close> as it is thrown (\<open>Inl\<close>).\<close>

definition analyzeTree ::
  "env \<Rightarrow> DecisionNode \<Rightarrow> int \<Rightarrow> int \<Rightarrow> string \<Rightarrow> bool \<Rightarrow> world \<Rightarrow> (DecisionNode \<times> world) option" where
  "analyzeTree e initialTree depth breadth problem onProgress w =
     analyzeDecisionTree e initialTree 0 depth problem [] onProgress
       (calculateTotalBranches initialTree 0 depth breadth) breadth
       (w\<lparr> completedBranches_value := 0 \<rparr>)"

definition analyzeDecision ::
  "env \<Rightarrow> string \<Rightarrow> int \<Rightarrow> int \<Rightarrow> bool \<Rightarrow> world \<Rightarrow> (error + DecisionNode \<times> world) option" where
  "analyzeDecision e problem depth breadth onProgress w =
     (case generateInitialDecisionTree e problem breadth w of
        Inl err \<Rightarrow> Some (Inl err)
      | Inr (initialTree, w1) \<Rightarrow>
          map_option Inr (analyzeTree e initialTree depth breadth problem onProgress w1))"

subsection \<open>Measures of a tree\<close>

fun countNodes :: "DecisionNode \<Rightarrow> nat" where
  "countNodes (DecisionNode i d t p r opp pr cs) = 1 + sum_list (map countNodes cs)"

fun countLeaves :: "DecisionNode \<Rightarrow> nat" where
  "countLeaves (DecisionNode i d t p r opp pr cs) =
     (if cs = [] then 1 else sum_list (map countLeaves cs))"

text \<open>What a run leaves: the numbers of nodes and of leaves of the tree it returns and the
  final value of the shared counter.\<close>

definition run_stats :: "(DecisionNode \<times> world) option \<Rightarrow> (nat \<times> nat \<times> int) option" where
  "run_stats r =
     map_option (\<lambda>(t, w). (countNodes t, countLeaves t, completedBranches_value w)) r"

subsection \<open>Stubs for the scenarios\<close>

definition stub_child :: "string \<Rightarrow> GeneratedNode" where
  "stub_child nid =
     GeneratedNode (Some []) (Some ''outcome'') (Some outcome) (Some (Some nid))
       (Some 5) (Some 5) (Some 50) []"

definition stub_option :: "string \<Rightarrow> GeneratedNode" where
  "stub_option rootId =
     GeneratedNode (Some []) (Some ''option'') (Some chance) (Some (Some rootId))
       (Some 5) (Some 5) None []"

text \<open>A tokenizer that never measures more than 1000 tokens.\<close>

definition short_tokens :: "string \<Rightarrow> nat" where
  "short_tokens s = min (length s) 1000"

text \<open>A deterministic generator that returns exactly \<open>B\<close> children at every call, with
  the defaults of the schemas for the fields a model may leave out; identifiers
  \<open>u\<close>, \<open>uu\<close>, \<open>uuu\<close>, \<dots>; prompts measured below the context size.\<close>

definition stub_env :: "nat \<Rightarrow> env" where
  "stub_env B =
     \<lparr> uuidv4 = (\<lambda>k. replicate (Suc k) (CHR ''u'')),
       generateConsequences = (\<lambda>k prompt nid breadth. Inr (replicate B (stub_child nid))),
       generateDecisionTree = (\<lambda>k problem breadth rootId.
          Inr (GeneratedNode (Some rootId) (Some problem) (Some decision) (Some None)
                 None None None (replicate B (stub_option rootId)))),
       tokenCount = short_tokens,
       CONTEXT_SIZE = 128000,
       expandPrompt = (\<lambda>problem fullPath breadth. problem @ fullPath) \<rparr>"

text \<open>The same with an expansion call that always fails.\<close>

definition failing_env :: env where
  "failing_env = (stub_env 2)\<lparr> generateConsequences :=
     (\<lambda>k prompt nid breadth. Inl (GenerationError ''no object generated'')) \<rparr>"

definition world0 :: world where
  "world0 = \<lparr> completedBranches_value = 0, uuids_drawn = 0, generation_calls = 0,
              warnings = [], progress_events = [] \<rparr>"

text \<open>An initial tree of breadth 2: the root and two first-level options.\<close>

definition initial_tree2 :: DecisionNode where
  "initial_tree2 =
     DecisionNode ''root'' ''move or stay'' decision None None None None
       [DecisionNode ''a'' ''move'' chance (Some ''root'') (Some 6) (Some 7) None [],
        DecisionNode ''b'' ''stay'' chance (Some ''root'') (Some 2) (Some 3) None []]"

text \<open>A root that has not been expanded.\<close>

definition leaf_root :: DecisionNode where
  "leaf_root = DecisionNode ''root'' ''move or stay'' decision None None None None []"

subsection \<open>Hypotheses on the generator and shapes of trees\<close>

text \<open>The generator is a stub that returns exactly \<open>B\<close> children, none with children of
  its own, at every expansion call.\<close>

definition returns_exactly :: "env \<Rightarrow> nat \<Rightarrow> bool" where
  "returns_exactly e B =
     (\<forall>k prompt nid breadth. \<exists>cs. generateConsequences e k prompt nid breadth = Inr cs \<and>
         length cs = B \<and> list_all (\<lambda>c. g_children c = []) cs)"

text \<open>\<open>trimPrompt\<close> returns on every prompt that \<open>expandDecisionNode\<close> assembles.\<close>

definition prompts_trimmed :: "env \<Rightarrow> bool" where
  "prompts_trimmed e =
     (\<forall>problem path breadth. \<exists>p.
         trimPrompt (tokenCount e) (expandPrompt e problem path breadth) (CONTEXT_SIZE e) = Some p)"

text \<open>The complete \<open>B\<close>-ary tree of height \<open>h\<close>.\<close>

fun full :: "nat \<Rightarrow> nat \<Rightarrow> DecisionNode \<Rightarrow> bool" where
  "full B 0 t = (children t = [])"
| "full B (Suc h) t = (length (children t) = B \<and> list_all (full B h) (children t))"









section \<open>Termination of the splitter\<close>

lemma splitBySize_total:
  "chunkOverlap sp < chunkSize sp \<Longrightarrow> \<exists>r. splitBySize sp tx = Some r"
  unfolding splitBySize_def by (rule loop_total) simp

lemma trySeparators_total:
  assumes "chunkOverlap sp < chunkSize sp"
  shows "\<exists>r. trySeparators sp tx seps = Some r"
proof (induction seps)
  case Nil
  show ?case by simp
next
  case (Cons separator rest)
  from splitBySize_total [OF assms] obtain r where "splitBySize sp tx = Some r" by blast
  with Cons show ?case by (auto simp: Let_def)
qed

lemma finalChunks_total:
  assumes "chunkOverlap sp < chunkSize sp"
  shows "\<exists>r. finalChunks sp tx = Some r"
proof -
  from trySeparators_total [OF assms] obtain r where "trySeparators sp tx (separators sp) = Some r"
    by blast
  moreover from splitBySize_total [OF assms] obtain r' where "splitBySize sp tx = Some r'"
    by blast
  ultimately show ?thesis by (simp add: finalChunks_def)
qed

lemma splitTextRecursive_total:
  "chunkOverlap sp < chunkSize sp \<Longrightarrow> \<exists>r. splitTextRecursive sp tx = Some r"
proof (induction sp tx rule: splitTextRecursive.induct)
  case (1 sp tx)
  from finalChunks_total [OF "1.prems"] obtain fc where fc: "finalChunks sp tx = Some fc"
    by blast
  have "\<exists>rs. those (map (\<lambda>chunk. if int (length chunk) > chunkSize sp
                                 then splitTextRecursive sp chunk
                                 else Some [chunk]) fc) = Some rs"
  proof (rule those_map_total)
    fix chunk assume "chunk \<in> set fc"
    with "1.IH" [OF fc] "1.prems"
    show "\<exists>y. (if int (length chunk) > chunkSize sp
                then splitTextRecursive sp chunk else Some [chunk]) = Some y"
      by auto
  qed
  with fc show ?case by (subst splitTextRecursive.simps) auto
qed

lemma splitText_total:
  "chunkOverlap sp < chunkSize sp \<Longrightarrow> \<exists>r. splitText sp tx = Some r"
  using splitTextRecursive_total [of sp tx] by (auto simp: splitText_def)

lemma splitBySize_None:
  "tx \<noteq> [] \<Longrightarrow> chunkSize sp \<le> chunkOverlap sp \<Longrightarrow> splitBySize sp tx = None"
  unfolding splitBySize_def by (rule loop_None) simp_all

lemma trySeparators_no_separator:
  assumes "no_separator_in seps tx" "splitBySize sp tx = None"
  shows "trySeparators sp tx seps = (if [] \<in> set seps then None else Some [])"
  using assms(1) by (induction seps) (auto simp: no_separator_in_def assms(2))

lemma splitText_None:
  assumes "chunkSize sp \<le> chunkOverlap sp" "tx \<noteq> []" "chunkSize sp < int (length tx)"
    "no_separator_in (separators sp) tx"
  shows "splitText sp tx = None"
proof -
  have n: "splitBySize sp tx = None" using assms(2,1) by (rule splitBySize_None)
  with trySeparators_no_separator [OF assms(4) n] have "finalChunks sp tx = None"
    by (simp add: finalChunks_def)
  then have "splitTextRecursive sp tx = None" by (subst splitTextRecursive.simps) simp
  with assms(2,3) show ?thesis by (simp add: splitText_def)
qed

text \<open>
  Claim C10.  For every input text \<open>splitText\<close> returns provided
  \<open>chunkOverlap < chunkSize\<close>.  The precondition is needed: the loop of \<open>splitBySize\<close> adds
  \<open>chunkSize - chunkOverlap\<close> to its position and tests nothing else, so on a non-empty
  text it never returns when \<open>chunkSize \<le> chunkOverlap\<close>; and a splitter built with a
  \<open>chunkSize\<close> of at most 200 and the constructor's default overlap of 200 never returns
  on a text longer than \<open>chunkSize\<close> in which no separator occurs.
\<close>

theorem splitText_terminates_when_step_positive:
  "(chunkOverlap sp < chunkSize sp \<longrightarrow> (\<exists>chunks. splitText sp text = Some chunks)) \<and>
   (chunkSize sp \<le> chunkOverlap sp \<and> text \<noteq> [] \<longrightarrow> splitBySize sp text = None) \<and>
   (c \<noteq> 0 \<and> c \<le> 200 \<and> c < int (length prompt) \<and> prompt \<noteq> [] \<and>
      no_separator_in default_separators prompt \<longrightarrow>
      splitText (new_splitter \<lparr> opt_chunkSize = Some c, opt_chunkOverlap = None,
                                opt_separators = None \<rparr>) prompt = None)"
proof (intro conjI impI)
  assume "chunkOverlap sp < chunkSize sp"
  then show "\<exists>chunks. splitText sp text = Some chunks" by (rule splitText_total)
next
  assume "chunkSize sp \<le> chunkOverlap sp \<and> text \<noteq> []"
  then show "splitBySize sp text = None" by (simp add: splitBySize_None)
next
  assume a: "c \<noteq> 0 \<and> c \<le> 200 \<and> c < int (length prompt) \<and> prompt \<noteq> [] \<and>
      no_separator_in default_separators prompt"
  show "splitText (new_splitter \<lparr> opt_chunkSize = Some c, opt_chunkOverlap = None,
                                opt_separators = None \<rparr>) prompt = None"
    by (rule splitText_None) (use a in \<open>simp_all add: new_splitter_def or_default_def\<close>)
qed

theorem splitText_terminates_when_step_positive_witness:
  "(\<exists>chunks. splitText \<lparr> chunkSize = 3, chunkOverlap = 1, separators = default_separators \<rparr>
       ''abcdefg'' = Some chunks) \<and>
   splitBySize \<lparr> chunkSize = 150, chunkOverlap = 200, separators = default_separators \<rparr> ''abc''
     = None \<and>
   splitText (new_splitter \<lparr> opt_chunkSize = Some 2, opt_chunkOverlap = None,
                             opt_separators = None \<rparr>) ''abc'' = None"
  using splitText_terminates_when_step_positive
    [of "\<lparr> chunkSize = 3, chunkOverlap = 1, separators = default_separators \<rparr>" "''abcdefg''" 2 "''abc''"]
    splitText_terminates_when_step_positive
    [of "\<lparr> chunkSize = 150, chunkOverlap = 200, separators = default_separators \<rparr>" "''abc''" 2 "''abc''"]
  by (simp add: no_separator_in_def default_separators_def)

section \<open>What the chunks keep of the text\<close>




















section \<open>Properties of trimPrompt\<close>

text \<open>
  Claim C4.  For every text and budget \<open>N\<close>, if the tokenizer measures at most \<open>N\<close> tokens
  then \<open>trimPrompt\<close> returns the text unchanged.  Both providers share the body, and the
  empty text falls under the first test of the source, which returns the empty string.
\<close>

theorem trimPrompt_identity_within_budget:
  "int (encode prompt) \<le> contextSize \<Longrightarrow> trimPrompt encode prompt contextSize = Some prompt"
  by (simp add: trimPrompt.simps)

theorem trimPrompt_identity_within_budget_witness:
  "int (one_token_per_unit ''hello'') \<le> 5 \<and> trimPrompt one_token_per_unit ''hello'' 5 = Some ''hello''"
  using trimPrompt_identity_within_budget [of one_token_per_unit "''hello''" 5]
  by (simp add: one_token_per_unit_def)







section \<open>Properties of the tree engine\<close>




lemma set_children_same: "set_children node (children node) = node"
  by (cases node) simp

lemma children_set_children [simp]: "children (set_children node cs) = cs"
  by (cases node) simp

text \<open>
  Claim C5.  A node whose list of children is not empty is returned by
  \<open>expandDecisionNode\<close> as it is, and the world is unchanged: no generation call is
  issued, no identifier drawn, nothing logged.
\<close>

theorem expandDecisionNode_idempotent:
  "children node \<noteq> [] \<Longrightarrow> expandDecisionNode e node breadth problem path w = Some (node, w)"
  by (simp add: expandDecisionNode_def)

theorem expandDecisionNode_idempotent_witness:
  "children initial_tree2 \<noteq> [] \<and>
   expandDecisionNode (stub_env 2) initial_tree2 2 ''p'' [] world0 = Some (initial_tree2, world0)"
  using expandDecisionNode_idempotent [of initial_tree2 "stub_env 2" 2 "''p''" "[]" world0]
  by (simp add: initial_tree2_def)

text \<open>
  Claim C6.  For a node without children, when the prompt has been trimmed and the
  generation call fails, \<open>expandDecisionNode\<close> logs the error and returns the node as it
  is, still without children; the analysis of that node, below the maximum depth, then
  returns it as a leaf instead of failing.
\<close>

theorem expandDecisionNode_failure_degrades:
  assumes "children node = []"
    and "trimPrompt (tokenCount e) (expandPrompt e problem (full_path path node) breadth)
           (CONTEXT_SIZE e) = Some prompt"
    and "generateConsequences e (generation_calls w) prompt (node_id node) breadth = Inl err"
  shows "expandDecisionNode e node breadth problem path w =
           Some (node, w\<lparr> generation_calls := generation_calls w + 1,
                           warnings := warnings w @ [(description node, err)] \<rparr>) \<and>
         (depth < maxDepth \<longrightarrow>
            (\<exists>w'. analyzeDecisionTree e node depth maxDepth problem path onProgress
                     totalBranches' breadth w = Some (node, w')))"
proof -
  have ex: "expandDecisionNode e node breadth problem path w =
           Some (node, w\<lparr> generation_calls := generation_calls w + 1,
                           warnings := warnings w @ [(description node, err)] \<rparr>)"
    using assms by (simp add: expandDecisionNode_def)
  moreover have "set_children node [] = node"
    using set_children_same [of node] assms(1) by simp
  ultimately show ?thesis
    by (subst analyzeDecisionTree.simps) (simp add: Let_def assms(1))
qed

theorem expandDecisionNode_failure_degrades_witness:
  "expandDecisionNode failing_env leaf_root 2 ''p'' [] world0 =
     Some (leaf_root, world0\<lparr> generation_calls := 1,
              warnings := [(''move or stay'', GenerationError ''no object generated'')] \<rparr>) \<and>
   (\<exists>w'. analyzeDecisionTree failing_env leaf_root 0 2 ''p'' [] True 5 2 world0 = Some (leaf_root, w'))"
proof -
  have c: "children leaf_root = []" by (simp add: leaf_root_def)
  have t: "trimPrompt (tokenCount failing_env)
             (expandPrompt failing_env ''p'' (full_path [] leaf_root) 2) (CONTEXT_SIZE failing_env)
           = Some ''pmove or stay''"
    by (simp add: trimPrompt.simps failing_env_def stub_env_def full_path_def leaf_root_def
        short_tokens_def)
  have g: "generateConsequences failing_env (generation_calls world0) ''pmove or stay''
             (node_id leaf_root) 2 = Inl (GenerationError ''no object generated'')"
    by (simp add: failing_env_def stub_env_def)
  show ?thesis
    using expandDecisionNode_failure_degrades [OF c t g, of 0 2 True 5]
    by (simp add: world0_def leaf_root_def)
qed

text \<open>
  Claim C9, as stated, fails: on the initial tree of the scenario, whose root has its two
  options, the estimate is not \<open>1 + 2\<^sup>2\<close>.  The root is counted with its realized children
  and each of them, not yet expanded, counts \<open>1 + 2\<close>.
\<close>

theorem scenario_estimate_counterexample:
  "calculateTotalBranches initial_tree2 0 2 2 \<noteq> 1 + 2\<^sup>2"
  by (simp add: initial_tree2_def)

text \<open>
  Claim C9, amended.  In the scenario (initial tree of breadth 2, maximum depth 2, a stub
  that always returns two outcome children) the final tree has \<open>1 + 2 + 4 = 7\<close> nodes, four
  of them leaves, and the estimate computed on the initial tree at depth 0 is
  \<open>1 + (1 + 2) + (1 + 2) = 7\<close>: it is not below the number of nodes realized.  The shared
  counter ends at 5, the four leaves and the completion of the root.
\<close>

theorem scenario_breadth2_depth2:
  "run_stats (analyzeTree (stub_env 2) initial_tree2 2 2 ''p'' True world0) = Some (7, 4, 5) \<and>
   calculateTotalBranches initial_tree2 0 2 2 = 1 + (1 + 2) + (1 + 2)"
  by code_simp

subsection \<open>The walk under a stub that returns exactly \<open>B\<close> children\<close>

lemma sum_list_const: "list_all (\<lambda>x. f x = (c::nat)) xs \<Longrightarrow> sum_list (map f xs) = length xs * c"
  by (induction xs) auto

lemma countNodes_full: "full B h t \<Longrightarrow> countNodes t = (\<Sum>i\<le>h. B ^ i)"
proof (induction h arbitrary: t)
  case 0
  then show ?case by (cases t) simp
next
  case (Suc h)
  obtain i d ty p r opp pr cs where t: "t = DecisionNode i d ty p r opp pr cs" by (cases t)
  with Suc.prems have len: "length cs = B" and all: "list_all (full B h) cs" by simp_all
  from all Suc.IH have "list_all (\<lambda>c. countNodes c = (\<Sum>i\<le>h. B ^ i)) cs"
    by (simp add: list_all_iff)
  then have "sum_list (map countNodes cs) = B * (\<Sum>i\<le>h. B ^ i)"
    using len by (simp add: sum_list_const)
  also have "\<dots> = (\<Sum>i\<le>h. B ^ Suc i)" by (simp add: sum_distrib_left)
  finally have "countNodes t = 1 + (\<Sum>i\<le>h. B ^ Suc i)" by (simp add: t)
  also have "\<dots> = (\<Sum>i\<le>Suc h. B ^ i)"
    by (simp add: sum.atMost_Suc_shift del: sum.atMost_Suc power_Suc)
  finally show ?case .
qed

lemma countLeaves_full: "0 < B \<Longrightarrow> full B h t \<Longrightarrow> countLeaves t = B ^ h"
proof (induction h arbitrary: t)
  case 0
  then show ?case by (cases t) simp
next
  case (Suc h)
  obtain i d ty p r opp pr cs where t: "t = DecisionNode i d ty p r opp pr cs" by (cases t)
  with Suc.prems have len: "length cs = B" and all: "list_all (full B h) cs" by simp_all
  from all Suc.IH Suc.prems(1) have "list_all (\<lambda>c. countLeaves c = B ^ h) cs"
    by (simp add: list_all_iff)
  then have "sum_list (map countLeaves cs) = B * B ^ h"
    using len by (simp add: sum_list_const)
  moreover from len Suc.prems(1) have "cs \<noteq> []" by auto
  ultimately show ?case by (simp add: t)
qed

lemma normalize_flat:
  "g_children g = [] \<Longrightarrow> children (fst (normalizeNode uuid g dflt n)) = []"
  by (cases g) (simp add: Let_def split: prod.splits)

lemma normalizeNodes_flat:
  "list_all (\<lambda>c. g_children c = []) gs \<Longrightarrow> normalizeNodes uuid gs dflt n = (ds, n') \<Longrightarrow>
   length ds = length gs \<and> list_all (\<lambda>d. children d = []) ds"
proof (induction gs arbitrary: n ds n')
  case Nil
  then show ?case by simp
next
  case (Cons g gs)
  obtain c n1 where c: "normalizeNode uuid g dflt n = (c, n1)" by (cases "normalizeNode uuid g dflt n")
  obtain cs n2 where cs: "normalizeNodes uuid gs dflt n1 = (cs, n2)"
    by (cases "normalizeNodes uuid gs dflt n1")
  from Cons.prems(1) normalize_flat [of g uuid dflt n] c have "children c = []" by simp
  moreover from Cons.IH [OF _ cs] Cons.prems(1)
  have "length cs = length gs \<and> list_all (\<lambda>d. children d = []) cs" by simp
  moreover from Cons.prems(2) c cs have "ds = c # cs" by simp
  ultimately show ?case by simp
qed

lemma expand_stub:
  assumes "returns_exactly e B" "prompts_trimmed e" "children node = []"
  shows "\<exists>ds w1. expandDecisionNode e node breadth problem path w = Some (set_children node ds, w1) \<and>
           length ds = B \<and> list_all (\<lambda>d. children d = []) ds \<and>
           completedBranches_value w1 = completedBranches_value w"
proof -
  from assms(2) obtain p where p: "trimPrompt (tokenCount e)
      (expandPrompt e problem (full_path path node) breadth) (CONTEXT_SIZE e) = Some p"
    unfolding prompts_trimmed_def by blast
  from assms(1) obtain cs where cs:
    "generateConsequences e (generation_calls w) p (node_id node) breadth = Inr cs"
    "length cs = B" "list_all (\<lambda>c. g_children c = []) cs"
    unfolding returns_exactly_def by blast
  obtain ds n where ds: "normalizeNodes (uuidv4 e) cs (Some (node_id node)) (uuids_drawn w) = (ds, n)"
    by (cases "normalizeNodes (uuidv4 e) cs (Some (node_id node)) (uuids_drawn w)")
  from normalizeNodes_flat [OF cs(3) ds] cs(2)
  have "length ds = B" "list_all (\<lambda>d. children d = []) ds" by simp_all
  moreover have "expandDecisionNode e node breadth problem path w =
      Some (set_children node ds, w\<lparr> generation_calls := generation_calls w + 1, uuids_drawn := n \<rparr>)"
    using assms(3) p cs(1) ds by (simp add: expandDecisionNode_def)
  ultimately show ?thesis by auto
qed

lemma map_world_counted:
  assumes "\<And>x w. x \<in> set xs \<Longrightarrow>
      \<exists>y w'. f x w = Some (y, w') \<and> P y \<and> completedBranches_value w' = completedBranches_value w + c"
  shows "\<exists>ys w'. map_world f xs w = Some (ys, w') \<and> length ys = length xs \<and> list_all P ys \<and>
           completedBranches_value w' = completedBranches_value w + int (length xs) * c"
  using assms
proof (induction xs arbitrary: w)
  case Nil
  then show ?case by simp
next
  case (Cons x xs)
  from Cons.prems [of x w] obtain y w1 where y: "f x w = Some (y, w1)" "P y"
    "completedBranches_value w1 = completedBranches_value w + c" by auto
  from Cons.IH [of w1] Cons.prems obtain ys w2 where ys: "map_world f xs w1 = Some (ys, w2)"
    "length ys = length xs" "list_all P ys"
    "completedBranches_value w2 = completedBranches_value w1 + int (length xs) * c"
    by (metis list.set_intros(2))
  from y ys show ?case by (simp add: algebra_simps)
qed

lemma complete_branch_value [simp]:
  "completedBranches_value (complete_branch onProgress depth maxDepth currentPath t w) =
     completedBranches_value w + 1"
  by (simp add: complete_branch_def Let_def)

lemma analyze_leaf_below_root:
  assumes stub: "returns_exactly e B" and trim: "prompts_trimmed e"
  shows "children node = [] \<Longrightarrow> 0 < depth \<Longrightarrow> depth \<le> maxDepth \<Longrightarrow> h = nat (maxDepth - depth) \<Longrightarrow>
    \<exists>t w'. analyzeDecisionTree e node depth maxDepth problem path onProgress totalBranches' breadth w
              = Some (t, w') \<and> full B h t \<and>
            completedBranches_value w' = completedBranches_value w + int B ^ h"
proof (induction h arbitrary: node depth path w)
  case 0
  then have "depth = maxDepth" by simp
  then show ?case
    using "0.prems"(1) by (subst analyzeDecisionTree.simps) (simp add: Let_def)
next
  case (Suc h)
  then have lt: "depth < maxDepth" by simp
  from expand_stub [OF stub trim Suc.prems(1), of breadth problem path w]
  obtain ds w1 where ex: "expandDecisionNode e node breadth problem path w = Some (set_children node ds, w1)"
    "length ds = B" "list_all (\<lambda>d. children d = []) ds"
    "completedBranches_value w1 = completedBranches_value w" by blast
  let ?f = "\<lambda>child. analyzeDecisionTree e child (depth + 1) maxDepth problem (full_path path node)
              onProgress totalBranches' breadth"
  have "\<exists>ys w'. map_world ?f ds w1 = Some (ys, w') \<and> length ys = length ds \<and>
          list_all (full B h) ys \<and>
          completedBranches_value w' = completedBranches_value w1 + int (length ds) * int B ^ h"
  proof (rule map_world_counted)
    fix x v assume "x \<in> set ds"
    with ex(3) have leaf: "children x = []" by (simp add: list_all_iff)
    from Suc.prems(4) have hh: "h = nat (maxDepth - (depth + 1))" by linarith
    from Suc.IH [OF leaf _ _ hh, of "full_path path node" v] Suc.prems(2) lt
    show "\<exists>y w'. ?f x v = Some (y, w') \<and> full B h y \<and>
        completedBranches_value w' = completedBranches_value v + int B ^ h"
      by simp
  qed
  then obtain ys w2 where ys: "map_world ?f ds w1 = Some (ys, w2)" "length ys = length ds"
    "list_all (full B h) ys"
    "completedBranches_value w2 = completedBranches_value w1 + int (length ds) * int B ^ h"
    by blast
  have "analyzeDecisionTree e node depth maxDepth problem path onProgress totalBranches' breadth w
      = Some (set_children (set_children node ds) ys, w2)"
    using lt Suc.prems(2) ex(1) ys(1) by (subst analyzeDecisionTree.simps) (simp add: Let_def)
  moreover have "full B (Suc h) (set_children (set_children node ds) ys)"
    using ys(2,3) ex(2) by simp
  moreover have "completedBranches_value w2 = completedBranches_value w + int B ^ Suc h"
    using ys(4) ex(2,4) by simp
  ultimately show ?case by blast
qed


lemma expand_root:
  assumes stub: "returns_exactly e B" and trim: "prompts_trimmed e"
    and root: "children root = [] \<or>
      (length (children root) = B \<and> list_all (\<lambda>c. children c = []) (children root))"
  shows "\<exists>ds w1. expandDecisionNode e root breadth problem path w = Some (set_children root ds, w1) \<and>
           length ds = B \<and> list_all (\<lambda>d. children d = []) ds \<and>
           completedBranches_value w1 = completedBranches_value w"
proof (cases "children root = []")
  case True
  then show ?thesis by (rule expand_stub [OF stub trim])
next
  case False
  then have "expandDecisionNode e root breadth problem path w
      = Some (set_children root (children root), w)"
    by (simp add: expandDecisionNode_def set_children_same)
  with False root show ?thesis by blast
qed

lemma analyze_root:
  assumes stub: "returns_exactly e B" and trim: "prompts_trimmed e" and pos: "0 < maxDepth"
    and root: "children root = [] \<or>
      (length (children root) = B \<and> list_all (\<lambda>c. children c = []) (children root))"
  shows "\<exists>t w'. analyzeDecisionTree e root 0 maxDepth problem path onProgress totalBranches' breadth w
              = Some (t, w') \<and> full B (nat maxDepth) t \<and>
            completedBranches_value w' = completedBranches_value w + int B ^ nat maxDepth + 1"
proof -
  define h where "h = nat (maxDepth - 1)"
  with pos have hS: "nat maxDepth = Suc h" by simp
  from expand_root [OF stub trim root, of breadth problem path w]
  obtain ds w1 where ex: "expandDecisionNode e root breadth problem path w = Some (set_children root ds, w1)"
    "length ds = B" "list_all (\<lambda>d. children d = []) ds"
    "completedBranches_value w1 = completedBranches_value w" by blast
  let ?f = "\<lambda>child. analyzeDecisionTree e child (0 + 1) maxDepth problem (full_path path root)
              onProgress totalBranches' breadth"
  have "\<exists>ys w'. map_world ?f ds w1 = Some (ys, w') \<and> length ys = length ds \<and>
          list_all (full B h) ys \<and>
          completedBranches_value w' = completedBranches_value w1 + int (length ds) * int B ^ h"
  proof (rule map_world_counted)
    fix x v assume "x \<in> set ds"
    with ex(3) have leaf: "children x = []" by (simp add: list_all_iff)
    from analyze_leaf_below_root [OF stub trim leaf, of "0 + 1" maxDepth h] pos h_def
    show "\<exists>y w'. ?f x v = Some (y, w') \<and> full B h y \<and>
        completedBranches_value w' = completedBranches_value v + int B ^ h"
      by simp
  qed
  then obtain ys w2 where ys: "map_world ?f ds w1 = Some (ys, w2)" "length ys = length ds"
    "list_all (full B h) ys"
    "completedBranches_value w2 = completedBranches_value w1 + int (length ds) * int B ^ h"
    by blast
  have "analyzeDecisionTree e root 0 maxDepth problem path onProgress totalBranches' breadth w
      = Some (set_children (set_children root ds) ys,
              complete_branch onProgress 0 maxDepth (full_path path root) totalBranches' w2)"
    using pos ex(1) ys(1) by (subst analyzeDecisionTree.simps) (simp add: Let_def)
  moreover have "full B (nat maxDepth) (set_children (set_children root ds) ys)"
    using ys(2,3) ex(2) hS by simp
  moreover have "completedBranches_value
        (complete_branch onProgress 0 maxDepth (full_path path root) totalBranches' w2)
      = completedBranches_value w + int B ^ nat maxDepth + 1"
    using ys(4) ex(2,4) hS by simp
  ultimately show ?thesis by blast
qed

lemma returns_exactly_stub: "returns_exactly (stub_env B) B"
  by (simp add: returns_exactly_def stub_env_def stub_child_def list_all_length)

lemma prompts_trimmed_stub: "prompts_trimmed (stub_env B)"
  by (simp add: prompts_trimmed_def stub_env_def trimPrompt.simps short_tokens_def)

text \<open>
  Claim C1, as stated, fails for the counts.  With \<open>B = 2\<close> and \<open>maxDepth = 2\<close> the walk
  from a root returns a tree of \<open>1 + 2 + 4 = 7\<close> nodes, of which 4 are leaves, and the shared
  counter ends at 5: it is incremented once at each of the 4 nodes at the maximum depth
  and once more when the root completes, never at the nodes in between.
\<close>

theorem analyzeDecisionTree_stub_counterexample:
  "run_stats (analyzeDecisionTree (stub_env 2) leaf_root 0 2 ''p'' [] True 5 2 world0)
     = Some (7, 4, 5)"
  by code_simp

text \<open>
  Claim C1, amended.  Let the generator return exactly \<open>B \<ge> 1\<close> children, without children of
  their own, at every expansion call, and let \<open>trimPrompt\<close> return on the prompts of the
  expansions.  Then for every \<open>maxDepth \<ge> 0\<close> the walk started at depth 0, from a root
  without children or (for \<open>maxDepth > 0\<close>) from an initial tree whose root holds \<open>B\<close>
  options, returns; the tree has \<open>1 + B + \<dots> + B ^ maxDepth\<close> nodes, of which
  \<open>B ^ maxDepth\<close> are leaves; and the shared counter has grown by \<open>B ^ maxDepth + 1\<close>, the
  leaves and the completion of the root (by 1 when \<open>maxDepth = 0\<close>).  The sibling analyses
  are run one after the other; they meet only in the counter, whose final value is a sum.
\<close>

theorem analyzeDecisionTree_stub_counts:
  assumes "returns_exactly e B" and "prompts_trimmed e" and "0 < B" and "0 \<le> maxDepth"
    and "children root = [] \<or>
      (0 < maxDepth \<and> length (children root) = B \<and> list_all (\<lambda>c. children c = []) (children root))"
  shows "\<exists>t w'. analyzeDecisionTree e root 0 maxDepth problem path onProgress totalBranches' breadth w
              = Some (t, w') \<and>
            countNodes t = (\<Sum>i\<le>nat maxDepth. B ^ i) \<and>
            countLeaves t = B ^ nat maxDepth \<and>
            completedBranches_value w' =
              completedBranches_value w + (if maxDepth = 0 then 1 else int B ^ nat maxDepth + 1)"
proof (cases "maxDepth = 0")
  case True
  with assms(5) have leaf: "children root = []" by simp
  have "analyzeDecisionTree e root 0 maxDepth problem path onProgress totalBranches' breadth w
      = Some (root, complete_branch onProgress 0 maxDepth (full_path path root) totalBranches' w)"
    using True by (subst analyzeDecisionTree.simps) (simp add: Let_def)
  moreover from leaf have "full B 0 root" by simp
  then have "countNodes root = (\<Sum>i\<le>0. B ^ i)" "countLeaves root = B ^ 0"
    using countNodes_full [of B 0 root] countLeaves_full [of B 0 root] assms(3) by simp_all
  ultimately show ?thesis using True by simp
next
  case False
  with assms(4) have pos: "0 < maxDepth" by simp
  from assms(5) have root: "children root = [] \<or>
      (length (children root) = B \<and> list_all (\<lambda>c. children c = []) (children root))" by blast
  from analyze_root [OF assms(1,2) pos root, of problem path onProgress totalBranches' breadth w]
  obtain t w' where r:
    "analyzeDecisionTree e root 0 maxDepth problem path onProgress totalBranches' breadth w = Some (t, w')"
    "full B (nat maxDepth) t"
    "completedBranches_value w' = completedBranches_value w + int B ^ nat maxDepth + 1" by blast
  from r(2) have "countNodes t = (\<Sum>i\<le>nat maxDepth. B ^ i)" "countLeaves t = B ^ nat maxDepth"
    using countNodes_full countLeaves_full assms(3) by blast+
  with r(1,3) False show ?thesis by simp
qed

theorem analyzeDecisionTree_stub_counts_witness:
  "\<exists>t w'. analyzeDecisionTree (stub_env 2) leaf_root 0 2 ''p'' [] True 5 2 world0 = Some (t, w') \<and>
      countNodes t = (\<Sum>i\<le>nat 2. 2 ^ i) \<and> countLeaves t = 2 ^ nat 2 \<and>
      completedBranches_value w' = completedBranches_value world0 + (2 ^ nat 2 + 1)"
proof -
  have leaf: "children leaf_root = [] \<or>
      (0 < (2::int) \<and> length (children leaf_root) = 2 \<and> list_all (\<lambda>c. children c = []) (children leaf_root))"
    by (simp add: leaf_root_def)
  from analyzeDecisionTree_stub_counts
    [OF returns_exactly_stub prompts_trimmed_stub _ _ leaf, of "''p''" "[]" True 5 2 world0]
  show ?thesis by simp
qed

subsection \<open>Parent identifiers\<close>




lemma node_id_set_children [simp]: "node_id (set_children node cs) = node_id node"
  by (cases node) simp

lemma parentId_set_children [simp]: "parentId (set_children node cs) = parentId node"
  by (cases node) simp











end
